theory Spec2Isabelle
  imports Main
begin

section \<open>The syntax tree of go/ast, as far as the linter reads it\<close>

text \<open>
  The linter of \<^verbatim>\<open>returnlinter.go\<close> works on the syntax tree of package go/ast.
  Statements and expressions are interface values there, so each node kind is a
  constructor here. A field of pointer type \<^verbatim>\<open>*ast.BlockStmt\<close> is an option
  (\<open>None\<close> is the nil pointer) and the block it points to is its statement list
  \<^verbatim>\<open>List\<close>; an interface field that go/ast allows to be nil (\<^verbatim>\<open>Else\<close>,
  \<^verbatim>\<open>Init\<close>, \<^verbatim>\<open>Tag\<close>, ...) is an option too.

  \<open>ExprStmt pos x\<close> carries, next to its expression \<^verbatim>\<open>X\<close>, the value of the
  method \<^verbatim>\<open>exprStmt.Pos()\<close>, the only position the linter ever reads.
  Identifiers are their \<^verbatim>\<open>Name\<close>. A function literal is its \<^verbatim>\<open>Body\<close>; a
  declaration statement is the list of the expressions of its specs.
\<close>

datatype expr =
    BadExpr
  | Ident string
  | Ellipsis "expr option"
  | BasicLit string
  | FuncLit "stmt list option"
  | CompositeLit "expr option" "expr list"
  | ParenExpr expr
  | SelectorExpr expr string
  | IndexExpr expr expr
  | SliceExpr expr "expr option" "expr option" "expr option"
  | TypeAssertExpr expr "expr option"
  | CallExpr expr "expr list"
  | StarExpr expr
  | UnaryExpr expr
  | BinaryExpr expr expr
  | KeyValueExpr expr expr
  | ArrayType "expr option" expr
  | MapType expr expr
  | ChanType expr
and stmt =
    BadStmt
  | DeclStmt "expr list"
  | EmptyStmt
  | LabeledStmt string stmt
  | ExprStmt int expr
  | SendStmt expr expr
  | IncDecStmt expr
  | AssignStmt "expr list" "expr list"
  | GoStmt expr
  | DeferStmt expr
  | ReturnStmt "expr list"
  | BranchStmt "string option"
  | BlockStmt "stmt list"
  | IfStmt "stmt option" expr "stmt list option" "stmt option"
  | CaseClause "expr list" "stmt list"
  | SwitchStmt "stmt option" "expr option" "stmt list option"
  | TypeSwitchStmt "stmt option" stmt "stmt list option"
  | CommClause "stmt option" "stmt list"
  | SelectStmt "stmt list option"
  | ForStmt "stmt option" "expr option" "stmt option" "stmt list option"
  | RangeStmt "expr option" "expr option" expr "stmt list option"

text \<open>
  A \<^verbatim>\<open>*ast.Field\<close> groups the names declared with one type: the result list
  \<^verbatim>\<open>(a, b http.Handler)\<close> is a single field with two names, an unnamed result is a
  field with no name. \<^verbatim>\<open>Results\<close> of a function type is a pointer to a field list,
  nil when the function has no result.
\<close>

datatype field = Field (Names: "string list") (FieldType: expr)

record funcType =
  Params :: "field list"
  Results :: "field list option"

record funcDecl =
  Name :: string
  Type :: funcType
  Body :: "stmt list option"

section \<open>Diagnostics\<close>

text \<open>
  \<^verbatim>\<open>pass.Reportf(pos, msg)\<close> hands a diagnostic to the driver. The pass is the list
  of what was reported so far, in the order of the calls.
\<close>

record diagnostic =
  Pos :: int
  Message :: string

record pass =
  diagnostics :: "diagnostic list"

definition Reportf :: "int \<Rightarrow> string \<Rightarrow> pass \<Rightarrow> pass" where
  "Reportf pos msg p = p\<lparr>diagnostics := diagnostics p @ [\<lparr>Pos = pos, Message = msg\<rparr>]\<rparr>"

definition message :: string where
  "message = ''WriteHeader call not immediately followed by return statement''"

text \<open>The panic of the analysis: the dereference of a nil block pointer.\<close>

datatype error = NilPointerDereference

section \<open>The adjacency checker\<close>

fun IsWriteHeaderCall :: "expr \<Rightarrow> bool" where
  "IsWriteHeaderCall (CallExpr (SelectorExpr x sel) args) = (sel = ''WriteHeader'')"
| "IsWriteHeaderCall _ = False"

text \<open>
  \<^verbatim>\<open>IsFollowedByReturn(stmts, currentIndex)\<close>; the index is a loop index of
  \<^verbatim>\<open>range\<close> at every call, so it is a natural number.
\<close>

definition IsFollowedByReturn :: "stmt list \<Rightarrow> nat \<Rightarrow> bool" where
  "IsFollowedByReturn stmts currentIndex =
     (if currentIndex + 1 \<ge> length stmts then False
      else (case stmts ! (currentIndex + 1) of ReturnStmt results \<Rightarrow> True | _ \<Rightarrow> False))"

text \<open>Size bounds for the termination proofs below.\<close>

lemma size_enumerate_less:
  "(i, s) \<in> set (enumerate n l) \<Longrightarrow> size s < Suc (size_list size l)"
  by (induction l arbitrary: n) (auto simp: less_Suc_eq)

lemma size_set_le: "x \<in> set l \<Longrightarrow> size x \<le> size_list size l"
  by (induction l) auto

text \<open>
  The loops \<^verbatim>\<open>for i, stmt := range list\<close> are folds over the list paired with its
  indices. \<^verbatim>\<open>checkNestedWriteHeader\<close> is the type switch of the source, case by
  case; a statement of any other kind falls through it.
\<close>

function (sequential) checkNestedWriteHeader :: "stmt \<Rightarrow> pass \<Rightarrow> pass"
  and checkBlockForWriteHeader :: "stmt list option \<Rightarrow> pass \<Rightarrow> pass" where
  "checkNestedWriteHeader (IfStmt init cond body els) p =
     (let p1 = checkBlockForWriteHeader body p in
      case els of None \<Rightarrow> p1 | Some e \<Rightarrow> checkNestedWriteHeader e p1)"
| "checkNestedWriteHeader (BlockStmt l) p = checkBlockForWriteHeader (Some l) p"
| "checkNestedWriteHeader (ForStmt init cond post body) p = checkBlockForWriteHeader body p"
| "checkNestedWriteHeader (RangeStmt k v x body) p = checkBlockForWriteHeader body p"
| "checkNestedWriteHeader (SwitchStmt init tag body) p = checkBlockForWriteHeader body p"
| "checkNestedWriteHeader (TypeSwitchStmt init assign body) p = checkBlockForWriteHeader body p"
| "checkNestedWriteHeader (SelectStmt body) p = checkBlockForWriteHeader body p"
| "checkNestedWriteHeader (CaseClause l body) p =
     fold (\<lambda>(i, caseStmt) p.
             checkNestedWriteHeader caseStmt
               (case caseStmt of
                  ExprStmt pos x \<Rightarrow>
                    if IsWriteHeaderCall x
                    then (if \<not> IsFollowedByReturn body i then Reportf pos message p else p)
                    else p
                | _ \<Rightarrow> p))
          (enumerate 0 body) p"
| "checkNestedWriteHeader _ p = p"
| "checkBlockForWriteHeader None p = p"
| "checkBlockForWriteHeader (Some l) p =
     fold (\<lambda>(i, s) p.
             checkNestedWriteHeader s
               (case s of
                  ExprStmt pos x \<Rightarrow>
                    if IsWriteHeaderCall x
                    then (if \<not> IsFollowedByReturn l i then Reportf pos message p else p)
                    else p
                | _ \<Rightarrow> p))
          (enumerate 0 l) p"
  by pat_completeness auto

termination
  apply (relation "measure (\<lambda>x. case x of
            Inl (s, p) \<Rightarrow> 2 * size s + 1
          | Inr (b, p) \<Rightarrow> 2 * size_option (size_list size) b)")
   apply (auto dest: size_enumerate_less)
  done

text \<open>
  \<^verbatim>\<open>checkHandlerBody\<close> reads \<^verbatim>\<open>body.List\<close> with no test of the pointer: on a
  nil body it panics.
\<close>

definition checkHandlerBody :: "stmt list option \<Rightarrow> pass \<Rightarrow> error + pass" where
  "checkHandlerBody body p =
     (case body of
        None \<Rightarrow> Inl NilPointerDereference
      | Some l \<Rightarrow>
          Inr (fold (\<lambda>(i, s) p.
                  checkNestedWriteHeader s
                    (case s of
                       ExprStmt pos x \<Rightarrow>
                         if IsWriteHeaderCall x
                         then (if \<not> IsFollowedByReturn l i then Reportf pos message p else p)
                         else p
                     | _ \<Rightarrow> p))
               (enumerate 0 l) p))"

section \<open>The signature matcher and the adapter call\<close>

fun isHTTPHandler :: "expr \<Rightarrow> bool" where
  "isHTTPHandler (SelectorExpr (Ident name) sel) = (name = ''http'' \<and> sel = ''Handler'')"
| "isHTTPHandler _ = False"

definition isMiddlewarePattern :: "funcDecl \<Rightarrow> bool" where
  "isMiddlewarePattern funcDecl =
     (case Results (Type funcDecl) of
        None \<Rightarrow> False
      | Some l \<Rightarrow>
          if length l \<noteq> 1 then False
          else if \<not> isHTTPHandler (FieldType (l ! 0)) then False
          else True)"

text \<open>\<^verbatim>\<open>isHandlerFuncCall\<close> is given a call expression and looks at its \<^verbatim>\<open>Fun\<close>.\<close>

fun isHandlerFuncCall :: "expr \<Rightarrow> bool" where
  "isHandlerFuncCall (CallExpr (SelectorExpr (Ident name) sel) args) =
     (name = ''http'' \<and> sel = ''HandlerFunc'')"
| "isHandlerFuncCall _ = False"

section \<open>The walk of \<^verbatim>\<open>run\<close>\<close>

text \<open>
  Sequencing of steps that may panic: the first panic ends the run.
\<close>

definition andThen ::
  "(pass \<Rightarrow> error + pass) \<Rightarrow> (pass \<Rightarrow> error + pass) \<Rightarrow> pass \<Rightarrow> error + pass" where
  "andThen f g p = (case f p of Inl e \<Rightarrow> Inl e | Inr p' \<Rightarrow> g p')"

fun walkList :: "('a \<Rightarrow> pass \<Rightarrow> error + pass) \<Rightarrow> 'a list \<Rightarrow> pass \<Rightarrow> error + pass" where
  "walkList f [] p = Inr p"
| "walkList f (x # xs) p = (case f x p of Inl e \<Rightarrow> Inl e | Inr p' \<Rightarrow> walkList f xs p')"

definition walkOpt :: "('a \<Rightarrow> pass \<Rightarrow> error + pass) \<Rightarrow> 'a option \<Rightarrow> pass \<Rightarrow> error + pass" where
  "walkOpt f x p = (case x of None \<Rightarrow> Inr p | Some y \<Rightarrow> f y p)"

lemma walkList_cong [fundef_cong]:
  "xs = ys \<Longrightarrow> (\<And>x. x \<in> set ys \<Longrightarrow> f x = g x) \<Longrightarrow> walkList f xs = walkList g ys"
proof -
  assume a: "xs = ys" and b: "\<And>x. x \<in> set ys \<Longrightarrow> f x = g x"
  have "walkList f ys p = walkList g ys p" for p
    using b by (induction ys arbitrary: p) (auto split: sum.splits)
  with a show ?thesis by auto
qed

lemma walkOpt_cong [fundef_cong]:
  "x = y \<Longrightarrow> (\<And>z. y = Some z \<Longrightarrow> f z = g z) \<Longrightarrow> walkOpt f x = walkOpt g y"
  by (rule ext) (auto simp: walkOpt_def split: option.splits)

text \<open>
  The function literal that \<^verbatim>\<open>run\<close> hands to \<^verbatim>\<open>ast.Inspect\<close>. It acts on call
  expressions only (at every other node, also at the nil that closes a node's
  children, its type assertion fails) and it returns true in every case, so the
  walk is never pruned.
\<close>

definition visit :: "expr \<Rightarrow> pass \<Rightarrow> error + pass" where
  "visit node p =
     (case node of
        CallExpr fn args \<Rightarrow>
          if isHandlerFuncCall node
          then (if length args > 0
                then (case args ! 0 of
                        FuncLit body \<Rightarrow> checkHandlerBody body p
                      | _ \<Rightarrow> Inr p)
                else Inr p)
          else Inr p
      | _ \<Rightarrow> Inr p)"

text \<open>
  \<^verbatim>\<open>ast.Inspect\<close> is \<^verbatim>\<open>ast.Walk\<close> of go/ast: the callback at the node, then the
  children in the order of the node's fields, each optional child behind its nil
  test. \<^verbatim>\<open>Walk\<close> has no nil test for a block: at a nil \<^verbatim>\<open>*ast.BlockStmt\<close> the
  callback is called (the node is no call expression) and then \<^verbatim>\<open>n.List\<close>
  dereferences the nil pointer. Identifiers and literals have no children.
\<close>

function (sequential) inspectExpr :: "expr \<Rightarrow> pass \<Rightarrow> error + pass"
  and inspectStmt :: "stmt \<Rightarrow> pass \<Rightarrow> error + pass"
  and inspectBlock :: "stmt list option \<Rightarrow> pass \<Rightarrow> error + pass" where
  "inspectExpr (Ellipsis elt) = walkOpt inspectExpr elt"
| "inspectExpr (FuncLit body) = inspectBlock body"
| "inspectExpr (CompositeLit ty elts) =
     andThen (walkOpt inspectExpr ty) (walkList inspectExpr elts)"
| "inspectExpr (ParenExpr x) = inspectExpr x"
| "inspectExpr (SelectorExpr x sel) = inspectExpr x"
| "inspectExpr (IndexExpr x i) = andThen (inspectExpr x) (inspectExpr i)"
| "inspectExpr (SliceExpr x lo hi mx) =
     andThen (inspectExpr x)
       (andThen (walkOpt inspectExpr lo)
          (andThen (walkOpt inspectExpr hi) (walkOpt inspectExpr mx)))"
| "inspectExpr (TypeAssertExpr x ty) = andThen (inspectExpr x) (walkOpt inspectExpr ty)"
| "inspectExpr (CallExpr fn args) =
     andThen (visit (CallExpr fn args))
       (andThen (inspectExpr fn) (walkList inspectExpr args))"
| "inspectExpr (StarExpr x) = inspectExpr x"
| "inspectExpr (UnaryExpr x) = inspectExpr x"
| "inspectExpr (BinaryExpr x y) = andThen (inspectExpr x) (inspectExpr y)"
| "inspectExpr (KeyValueExpr k v) = andThen (inspectExpr k) (inspectExpr v)"
| "inspectExpr (ArrayType len elt) = andThen (walkOpt inspectExpr len) (inspectExpr elt)"
| "inspectExpr (MapType k v) = andThen (inspectExpr k) (inspectExpr v)"
| "inspectExpr (ChanType v) = inspectExpr v"
| "inspectExpr _ = Inr"
| "inspectStmt (DeclStmt specs) = walkList inspectExpr specs"
| "inspectStmt (LabeledStmt label s) = inspectStmt s"
| "inspectStmt (ExprStmt pos x) = inspectExpr x"
| "inspectStmt (SendStmt c v) = andThen (inspectExpr c) (inspectExpr v)"
| "inspectStmt (IncDecStmt x) = inspectExpr x"
| "inspectStmt (AssignStmt lhs rhs) =
     andThen (walkList inspectExpr lhs) (walkList inspectExpr rhs)"
| "inspectStmt (GoStmt call) = inspectExpr call"
| "inspectStmt (DeferStmt call) = inspectExpr call"
| "inspectStmt (ReturnStmt results) = walkList inspectExpr results"
| "inspectStmt (BlockStmt l) = walkList inspectStmt l"
| "inspectStmt (IfStmt init cond body els) =
     andThen (walkOpt inspectStmt init)
       (andThen (inspectExpr cond)
          (andThen (inspectBlock body) (walkOpt inspectStmt els)))"
| "inspectStmt (CaseClause l body) =
     andThen (walkList inspectExpr l) (walkList inspectStmt body)"
| "inspectStmt (SwitchStmt init tag body) =
     andThen (walkOpt inspectStmt init)
       (andThen (walkOpt inspectExpr tag) (inspectBlock body))"
| "inspectStmt (TypeSwitchStmt init assign body) =
     andThen (walkOpt inspectStmt init)
       (andThen (inspectStmt assign) (inspectBlock body))"
| "inspectStmt (CommClause comm body) =
     andThen (walkOpt inspectStmt comm) (walkList inspectStmt body)"
| "inspectStmt (SelectStmt body) = inspectBlock body"
| "inspectStmt (ForStmt init cond post body) =
     andThen (walkOpt inspectStmt init)
       (andThen (walkOpt inspectExpr cond)
          (andThen (walkOpt inspectStmt post) (inspectBlock body)))"
| "inspectStmt (RangeStmt k v x body) =
     andThen (walkOpt inspectExpr k)
       (andThen (walkOpt inspectExpr v)
          (andThen (inspectExpr x) (inspectBlock body)))"
| "inspectStmt _ = Inr"
| "inspectBlock None = (\<lambda>p. Inl NilPointerDereference)"
| "inspectBlock (Some l) = walkList inspectStmt l"
  by pat_completeness auto

termination
  apply (relation "measure (\<lambda>x. case x of
            Inl e \<Rightarrow> size e
          | Inr (Inl s) \<Rightarrow> size s
          | Inr (Inr b) \<Rightarrow> size_option (size_list size) b)")
   apply (auto dest: size_set_le)
  done

text \<open>
  \<^verbatim>\<open>run\<close>: \<^verbatim>\<open>inspect.Preorder\<close> calls the outer function literal on every
  function declaration of the package, in source order; \<open>decls\<close> is that sequence.
  A declaration the matcher rejects is left at once; for the others
  \<^verbatim>\<open>ast.Inspect\<close> walks \<^verbatim>\<open>funcDecl.Body\<close>, a pointer that is nil for a declaration
  without body. A panic in the callback ends \<^verbatim>\<open>run\<close>.
\<close>

definition run :: "funcDecl list \<Rightarrow> pass \<Rightarrow> error + pass" where
  "run decls p =
     walkList (\<lambda>funcDecl p.
                 if \<not> isMiddlewarePattern funcDecl then Inr p
                 else inspectBlock (Body funcDecl) p)
       decls p"

section \<open>Notions used to state the properties\<close>

subsection \<open>What a call of the checker reports\<close>

text \<open>
  \<open>emit ds\<close> appends the diagnostics \<open>ds\<close> to the pass. \<open>nestedDiags\<close> and
  \<open>blockDiags\<close> are what the two recursive routines report on a fresh pass;
  \<open>own l i s\<close> is what the scan of the list \<open>l\<close> reports for the statement \<open>s\<close> at
  index \<open>i\<close> itself, and \<open>scanDiags l\<close> the report of the whole scan: for each index
  the statement's own diagnostic, then those of its descent.
\<close>

definition emit :: "diagnostic list \<Rightarrow> pass \<Rightarrow> pass" where
  "emit ds p = p\<lparr>diagnostics := diagnostics p @ ds\<rparr>"

definition own :: "stmt list \<Rightarrow> nat \<Rightarrow> stmt \<Rightarrow> diagnostic list" where
  "own l i s =
     (case s of
        ExprStmt pos x \<Rightarrow>
          if IsWriteHeaderCall x \<and> \<not> IsFollowedByReturn l i
          then [\<lparr>Pos = pos, Message = message\<rparr>] else []
      | _ \<Rightarrow> [])"

definition nestedDiags :: "stmt \<Rightarrow> diagnostic list" where
  "nestedDiags s = diagnostics (checkNestedWriteHeader s \<lparr>diagnostics = []\<rparr>)"

definition blockDiags :: "stmt list option \<Rightarrow> diagnostic list" where
  "blockDiags b = diagnostics (checkBlockForWriteHeader b \<lparr>diagnostics = []\<rparr>)"

definition scanDiags :: "stmt list \<Rightarrow> diagnostic list" where
  "scanDiags l = concat (map (\<lambda>(i, s). own l i s @ nestedDiags s) (enumerate 0 l))"

definition violations :: "stmt list \<Rightarrow> diagnostic list" where
  "violations l = concat (map (\<lambda>(i, s). own l i s) (enumerate 0 l))"

subsection \<open>The statement lists that are scanned\<close>

text \<open>
  A list is scanned when one of the three loops runs over it: the closure body,
  the list of a block reached by the descent (the branches of an if, a loop body,
  a plain block, the clause list of a switch, type switch or select) and the body
  of a case clause. \<open>scannedBlock (Some body)\<close> lists them for a closure body.
\<close>

function (sequential) scannedIn :: "stmt \<Rightarrow> stmt list list"
  and scannedBlock :: "stmt list option \<Rightarrow> stmt list list" where
  "scannedIn (IfStmt init cond body els) =
     scannedBlock body @ (case els of None \<Rightarrow> [] | Some e \<Rightarrow> scannedIn e)"
| "scannedIn (BlockStmt l) = scannedBlock (Some l)"
| "scannedIn (ForStmt init cond post body) = scannedBlock body"
| "scannedIn (RangeStmt k v x body) = scannedBlock body"
| "scannedIn (SwitchStmt init tag body) = scannedBlock body"
| "scannedIn (TypeSwitchStmt init assign body) = scannedBlock body"
| "scannedIn (SelectStmt body) = scannedBlock body"
| "scannedIn (CaseClause es body) = body # concat (map scannedIn body)"
| "scannedIn _ = []"
| "scannedBlock None = []"
| "scannedBlock (Some l) = l # concat (map scannedIn l)"
  by pat_completeness auto
termination
  apply (relation "measure (\<lambda>x. case x of
            Inl s \<Rightarrow> 2 * size s + 1
          | Inr b \<Rightarrow> 2 * size_option (size_list size) b)")
   apply (auto dest: size_set_le)
  done

definition isReturnStmt :: "stmt \<Rightarrow> bool" where
  "isReturnStmt s = (case s of ReturnStmt results \<Rightarrow> True | _ \<Rightarrow> False)"

text \<open>The positions of the candidates of a list, in order.\<close>

definition candidatePos :: "stmt \<Rightarrow> int list" where
  "candidatePos s =
     (case s of ExprStmt pos x \<Rightarrow> if IsWriteHeaderCall x then [pos] else [] | _ \<Rightarrow> [])"

definition candidatePositions :: "stmt list \<Rightarrow> int list" where
  "candidatePositions l = concat (map candidatePos l)"

text \<open>The statement kinds that \<^verbatim>\<open>checkNestedWriteHeader\<close> has a case for.\<close>

fun descended :: "stmt \<Rightarrow> bool" where
  "descended (IfStmt init cond body els) = True"
| "descended (BlockStmt l) = True"
| "descended (ForStmt init cond post body) = True"
| "descended (RangeStmt k v x body) = True"
| "descended (SwitchStmt init tag body) = True"
| "descended (TypeSwitchStmt init assign body) = True"
| "descended (SelectStmt body) = True"
| "descended (CaseClause es body) = True"
| "descended _ = False"

subsection \<open>The nodes of the walk\<close>

text \<open>
  The call expressions and the block pointers below a node, in the order in which
  \<^verbatim>\<open>ast.Walk\<close> reaches them. \<open>adapterBodies\<close> are the bodies of the function
  literals that are the first argument of a call of \<^verbatim>\<open>http.HandlerFunc\<close>.
\<close>

datatype node = CallNode expr | BlockNode "stmt list option"

definition optList :: "'a option \<Rightarrow> 'a list" where
  "optList x = (case x of None \<Rightarrow> [] | Some y \<Rightarrow> [y])"

lemma set_optList: "x \<in> set (optList y) \<Longrightarrow> y = Some x"
  by (auto simp: optList_def split: option.splits)

function (sequential) nodesExpr :: "expr \<Rightarrow> node list"
  and nodesStmt :: "stmt \<Rightarrow> node list"
  and nodesBlock :: "stmt list option \<Rightarrow> node list" where
  "nodesExpr (Ellipsis elt) = concat (map nodesExpr (optList elt))"
| "nodesExpr (FuncLit body) = nodesBlock body"
| "nodesExpr (CompositeLit ty elts) =
     concat (map nodesExpr (optList ty)) @ concat (map nodesExpr elts)"
| "nodesExpr (ParenExpr x) = nodesExpr x"
| "nodesExpr (SelectorExpr x sel) = nodesExpr x"
| "nodesExpr (IndexExpr x i) = nodesExpr x @ nodesExpr i"
| "nodesExpr (SliceExpr x lo hi mx) =
     nodesExpr x @ concat (map nodesExpr (optList lo)) @ concat (map nodesExpr (optList hi))
       @ concat (map nodesExpr (optList mx))"
| "nodesExpr (TypeAssertExpr x ty) = nodesExpr x @ concat (map nodesExpr (optList ty))"
| "nodesExpr (CallExpr fn args) =
     CallNode (CallExpr fn args) # nodesExpr fn @ concat (map nodesExpr args)"
| "nodesExpr (StarExpr x) = nodesExpr x"
| "nodesExpr (UnaryExpr x) = nodesExpr x"
| "nodesExpr (BinaryExpr x y) = nodesExpr x @ nodesExpr y"
| "nodesExpr (KeyValueExpr k v) = nodesExpr k @ nodesExpr v"
| "nodesExpr (ArrayType len elt) = concat (map nodesExpr (optList len)) @ nodesExpr elt"
| "nodesExpr (MapType k v) = nodesExpr k @ nodesExpr v"
| "nodesExpr (ChanType v) = nodesExpr v"
| "nodesExpr _ = []"
| "nodesStmt (DeclStmt specs) = concat (map nodesExpr specs)"
| "nodesStmt (LabeledStmt label s) = nodesStmt s"
| "nodesStmt (ExprStmt pos x) = nodesExpr x"
| "nodesStmt (SendStmt c v) = nodesExpr c @ nodesExpr v"
| "nodesStmt (IncDecStmt x) = nodesExpr x"
| "nodesStmt (AssignStmt lhs rhs) = concat (map nodesExpr lhs) @ concat (map nodesExpr rhs)"
| "nodesStmt (GoStmt call) = nodesExpr call"
| "nodesStmt (DeferStmt call) = nodesExpr call"
| "nodesStmt (ReturnStmt results) = concat (map nodesExpr results)"
| "nodesStmt (BlockStmt l) = concat (map nodesStmt l)"
| "nodesStmt (IfStmt init cond body els) =
     concat (map nodesStmt (optList init)) @ nodesExpr cond @ nodesBlock body
       @ concat (map nodesStmt (optList els))"
| "nodesStmt (CaseClause es body) = concat (map nodesExpr es) @ concat (map nodesStmt body)"
| "nodesStmt (SwitchStmt init tag body) =
     concat (map nodesStmt (optList init)) @ concat (map nodesExpr (optList tag))
       @ nodesBlock body"
| "nodesStmt (TypeSwitchStmt init assign body) =
     concat (map nodesStmt (optList init)) @ nodesStmt assign @ nodesBlock body"
| "nodesStmt (CommClause comm body) =
     concat (map nodesStmt (optList comm)) @ concat (map nodesStmt body)"
| "nodesStmt (SelectStmt body) = nodesBlock body"
| "nodesStmt (ForStmt init cond post body) =
     concat (map nodesStmt (optList init)) @ concat (map nodesExpr (optList cond))
       @ concat (map nodesStmt (optList post)) @ nodesBlock body"
| "nodesStmt (RangeStmt k v x body) =
     concat (map nodesExpr (optList k)) @ concat (map nodesExpr (optList v))
       @ nodesExpr x @ nodesBlock body"
| "nodesStmt _ = []"
| "nodesBlock None = [BlockNode None]"
| "nodesBlock (Some l) = BlockNode (Some l) # concat (map nodesStmt l)"
  by pat_completeness auto

termination
  apply (relation "measure (\<lambda>x. case x of
            Inl e \<Rightarrow> size e
          | Inr (Inl s) \<Rightarrow> size s
          | Inr (Inr b) \<Rightarrow> size_option (size_list size) b)")
   apply (auto dest: size_set_le dest!: set_optList)
  done

text \<open>
  What the walk does at a node: the callback at a call expression, the
  dereference at a block pointer.
\<close>

fun visitNode :: "node \<Rightarrow> pass \<Rightarrow> error + pass" where
  "visitNode (CallNode c) p = visit c p"
| "visitNode (BlockNode None) p = Inl NilPointerDereference"
| "visitNode (BlockNode (Some l)) p = Inr p"

fun adapterBody :: "node \<Rightarrow> stmt list option list" where
  "adapterBody (CallNode (CallExpr fn (FuncLit body # rest))) =
     (if isHandlerFuncCall (CallExpr fn (FuncLit body # rest)) then [body] else [])"
| "adapterBody _ = []"

definition adapterBodies :: "stmt list option \<Rightarrow> stmt list option list" where
  "adapterBodies b = concat (map adapterBody (nodesBlock b))"

definition nilFree :: "stmt list option \<Rightarrow> bool" where
  "nilFree b = (BlockNode None \<notin> set (nodesBlock b))"

text \<open>
  A node list is closed when the body of every adapter call in it is one of its
  block nodes.
\<close>

definition closedNodes :: "node list \<Rightarrow> bool" where
  "closedNodes ns = (\<forall>n\<in>set ns. \<forall>b\<in>set (adapterBody n). BlockNode b \<in> set ns)"

text \<open>
  A step is a writer when its outcome does not depend on the pass it starts from:
  it panics on every pass, or it appends one fixed list of diagnostics.
\<close>

definition writer :: "(pass \<Rightarrow> error + pass) \<Rightarrow> bool" where
  "writer f = ((\<exists>e. f = (\<lambda>p. Inl e)) \<or> (\<exists>ds. f = (\<lambda>p. Inr (emit ds p))))"

subsection \<open>The number of declared results\<close>

text \<open>
  \<^verbatim>\<open>NumFields\<close> of go/ast counts the parameters or results a field list declares:
  one for each name of a field, one for a field without name, none for a nil list.
\<close>

definition NumFields :: "field list option \<Rightarrow> nat" where
  "NumFields fl =
     (case fl of
        None \<Rightarrow> 0
      | Some l \<Rightarrow> sum_list (map (\<lambda>g. if length (Names g) = 0 then 1 else length (Names g)) l))"

subsection \<open>Pieces of the example programs\<close>

definition httpHandler :: expr where
  "httpHandler = SelectorExpr (Ident ''http'') ''Handler''"

definition writeHeader :: "int \<Rightarrow> stmt" where
  "writeHeader pos =
     ExprStmt pos (CallExpr (SelectorExpr (Ident ''w'') ''WriteHeader'') [BasicLit ''200''])"

definition writeBody :: "int \<Rightarrow> stmt" where
  "writeBody pos =
     ExprStmt pos (CallExpr (SelectorExpr (Ident ''w'') ''Write'') [Ident ''body''])"

definition handlerFunc :: "stmt list option \<Rightarrow> expr" where
  "handlerFunc body = CallExpr (SelectorExpr (Ident ''http'') ''HandlerFunc'') [FuncLit body]"

text \<open>
  \<^verbatim>\<open>func Middleware(handler http.Handler) http.Handler\<close> with the given body.
\<close>

definition middleware :: "stmt list option \<Rightarrow> funcDecl" where
  "middleware body =
     \<lparr>Name = ''Middleware'',
      Type = \<lparr>Params = [Field [''handler''] httpHandler],
              Results = Some [Field [] httpHandler]\<rparr>,
      Body = body\<rparr>"

definition pass0 :: pass where
  "pass0 = \<lparr>diagnostics = []\<rparr>"

text \<open>
  \<^verbatim>\<open>select { case <-done: w.WriteHeader(200); w.Write(body) }\<close> as the closure body
  of a middleware.
\<close>

definition selectMiddleware :: funcDecl where
  "selectMiddleware =
     middleware (Some [ReturnStmt [handlerFunc (Some
       [SelectStmt (Some
          [CommClause (Some (ExprStmt 30 (UnaryExpr (Ident ''done''))))
             [writeHeader 40, writeBody 50]])])]])"

text \<open>The same closure body with a switch in place of the select.\<close>

definition switchMiddleware :: funcDecl where
  "switchMiddleware =
     middleware (Some [ReturnStmt [handlerFunc (Some
       [SwitchStmt None None (Some
          [CaseClause [Ident ''done''] [writeHeader 40, writeBody 50]])])]])"

text \<open>
  \<^verbatim>\<open>func NoParam() http.Handler\<close> and
  \<^verbatim>\<open>func Pair(handler http.Handler) (a, b http.Handler)\<close>, each returning a handler
  whose closure ends with a call of \<^verbatim>\<open>WriteHeader\<close>.
\<close>

definition noParam :: funcDecl where
  "noParam =
     \<lparr>Name = ''NoParam'',
      Type = \<lparr>Params = [], Results = Some [Field [] httpHandler]\<rparr>,
      Body = Some [ReturnStmt [handlerFunc (Some [writeHeader 10])]]\<rparr>"

definition pair :: funcDecl where
  "pair =
     \<lparr>Name = ''Pair'',
      Type = \<lparr>Params = [Field [''handler''] httpHandler],
              Results = Some [Field [''a'', ''b''] httpHandler]\<rparr>,
      Body = Some [ReturnStmt [handlerFunc (Some [writeHeader 10]), Ident ''nil'']]\<rparr>"

text \<open>
  A middleware with two adapter calls: one assigned to a variable, whose closure
  has a violation at position 10, and the returned one, with a violation at 20.
\<close>

definition twoAdapters :: funcDecl where
  "twoAdapters =
     middleware (Some
       [AssignStmt [Ident ''inner''] [handlerFunc (Some [writeHeader 10, writeBody 11])],
        ReturnStmt [handlerFunc (Some [writeHeader 20])]])"

text \<open>
  A closure body with a candidate in each kind of scanned list: the two branches
  of an if, a case arm of a switch inside a loop, and the body itself.
\<close>

definition nestedBody :: "stmt list" where
  "nestedBody =
     [IfStmt None (Ident ''c'')
        (Some [writeHeader 1, writeBody 2])
        (Some (BlockStmt [writeHeader 3, ReturnStmt []])),
      ForStmt None None None
        (Some [SwitchStmt None (Some (Ident ''m'')) (Some [CaseClause [] [writeHeader 4]])]),
      writeHeader 5,
      ReturnStmt []]"

section \<open>Properties of the checker\<close>

subsection \<open>The checker only appends to the pass\<close>

lemma emit_Nil [simp]: "emit [] p = p"
  by (simp add: emit_def)

lemma emit_emit [simp]: "emit ds (emit es p) = emit (es @ ds) p"
  by (simp add: emit_def)

lemma diagnostics_emit [simp]: "diagnostics (emit ds p) = diagnostics p @ ds"
  by (simp add: emit_def)

lemma Reportf_emit: "Reportf pos msg p = emit [\<lparr>Pos = pos, Message = msg\<rparr>] p"
  by (simp add: Reportf_def emit_def)

lemma fold_emit:
  "(\<And>x r. x \<in> set xs \<Longrightarrow> f x r = emit (g x) r) \<Longrightarrow> fold f xs p = emit (concat (map g xs)) p"
  by (induction xs arbitrary: p) auto

lemma own_step:
  "(case s of
      ExprStmt pos x \<Rightarrow>
        if IsWriteHeaderCall x
        then (if \<not> IsFollowedByReturn l i then Reportf pos message p else p)
        else p
    | _ \<Rightarrow> p) = emit (own l i s) p"
  by (cases s) (simp_all add: own_def Reportf_emit)

lemma emit_char:
  assumes "\<And>q. f q = emit ds q"
  shows "\<forall>q. f q = emit (diagnostics (f \<lparr>diagnostics = []\<rparr>)) q"
  using assms by simp

lemma emit_diags: "(\<And>q. f q = emit ds q) \<Longrightarrow> diagnostics (f \<lparr>diagnostics = []\<rparr>) = ds"
  by simp

lemma checker_emit:
  fixes p :: pass
  shows "(\<forall>q. checkNestedWriteHeader s q = emit (nestedDiags s) q)"
  and "(\<forall>q. checkBlockForWriteHeader b q = emit (blockDiags b) q)"
proof (induction s p and b p rule: checkNestedWriteHeader_checkBlockForWriteHeader.induct)
  case (1 init cond body els p)
  have "\<And>q. checkNestedWriteHeader (IfStmt init cond body els) q
        = emit (blockDiags body @ (case els of None \<Rightarrow> [] | Some e \<Rightarrow> nestedDiags e)) q"
    using 1 by (simp split: option.splits)
  then show ?case
    unfolding nestedDiags_def[of "IfStmt init cond body els"] by (rule emit_char)
next
  case (2 l p)
  then have "\<And>q. checkNestedWriteHeader (BlockStmt l) q = emit (blockDiags (Some l)) q"
    by (simp del: checkBlockForWriteHeader.simps)
  then show ?case
    unfolding nestedDiags_def[of "BlockStmt l"] by (rule emit_char)
next
  case (3 init cond post body p)
  then have "\<And>q. checkNestedWriteHeader (ForStmt init cond post body) q = emit (blockDiags body) q"
    by (simp del: checkBlockForWriteHeader.simps)
  then show ?case
    unfolding nestedDiags_def[of "ForStmt init cond post body"] by (rule emit_char)
next
  case (4 k v x body p)
  then have "\<And>q. checkNestedWriteHeader (RangeStmt k v x body) q = emit (blockDiags body) q"
    by (simp del: checkBlockForWriteHeader.simps)
  then show ?case
    unfolding nestedDiags_def[of "RangeStmt k v x body"] by (rule emit_char)
next
  case (5 init tag body p)
  then have "\<And>q. checkNestedWriteHeader (SwitchStmt init tag body) q = emit (blockDiags body) q"
    by (simp del: checkBlockForWriteHeader.simps)
  then show ?case
    unfolding nestedDiags_def[of "SwitchStmt init tag body"] by (rule emit_char)
next
  case (6 init assign body p)
  then have "\<And>q. checkNestedWriteHeader (TypeSwitchStmt init assign body) q
               = emit (blockDiags body) q"
    by (simp del: checkBlockForWriteHeader.simps)
  then show ?case
    unfolding nestedDiags_def[of "TypeSwitchStmt init assign body"] by (rule emit_char)
next
  case (7 body p)
  then have "\<And>q. checkNestedWriteHeader (SelectStmt body) q = emit (blockDiags body) q"
    by (simp del: checkBlockForWriteHeader.simps)
  then show ?case
    unfolding nestedDiags_def[of "SelectStmt body"] by (rule emit_char)
next
  case (8 l body p)
  have "\<And>q. checkNestedWriteHeader (CaseClause l body) q
        = emit (concat (map (\<lambda>(i, s). own body i s @ nestedDiags s) (enumerate 0 body))) q"
    unfolding checkNestedWriteHeader.simps own_step
    by (rule fold_emit) (use 8 in \<open>auto simp: own_step\<close>)
  then show ?case
    unfolding nestedDiags_def[of "CaseClause l body"] by (rule emit_char)
next
  case (11 l p)
  have "\<And>q. checkBlockForWriteHeader (Some l) q
        = emit (concat (map (\<lambda>(i, s). own l i s @ nestedDiags s) (enumerate 0 l))) q"
    unfolding checkBlockForWriteHeader.simps own_step
    by (rule fold_emit) (use 11 in \<open>auto simp: own_step\<close>)
  then show ?case
    unfolding blockDiags_def[of "Some l"] by (rule emit_char)
qed (simp_all add: nestedDiags_def blockDiags_def)

subsection \<open>What each scan reports\<close>

lemma checkBlock_scan: "checkBlockForWriteHeader (Some l) q = emit (scanDiags l) q"
  unfolding checkBlockForWriteHeader.simps own_step scanDiags_def
  by (rule fold_emit) (auto simp: checker_emit)

lemma checkCase_scan: "checkNestedWriteHeader (CaseClause es l) q = emit (scanDiags l) q"
  unfolding checkNestedWriteHeader.simps own_step scanDiags_def
  by (rule fold_emit) (auto simp: checker_emit)

lemma checkHandlerBody_scan: "checkHandlerBody (Some l) q = Inr (emit (scanDiags l) q)"
  unfolding checkHandlerBody_def option.case own_step scanDiags_def
  by (simp, rule fold_emit) (auto simp: checker_emit)

lemma blockDiags_simps:
  "blockDiags None = []"
  "blockDiags (Some l) = scanDiags l"
  unfolding blockDiags_def
  by (simp, rule emit_diags, rule checkBlock_scan)

lemma checkNested_If:
  "checkNestedWriteHeader (IfStmt init cond body els) q =
     emit (blockDiags body @ (case els of None \<Rightarrow> [] | Some e \<Rightarrow> nestedDiags e)) q"
  unfolding checkNestedWriteHeader.simps Let_def
  by (simp add: checker_emit split: option.splits)

lemma nestedDiags_If:
  "nestedDiags (IfStmt init cond body els) =
     blockDiags body @ (case els of None \<Rightarrow> [] | Some e \<Rightarrow> nestedDiags e)"
  unfolding nestedDiags_def[of "IfStmt init cond body els"]
  by (rule emit_diags, rule checkNested_If)

lemma nestedDiags_CaseClause: "nestedDiags (CaseClause es l) = scanDiags l"
  unfolding nestedDiags_def[of "CaseClause es l"]
  by (rule emit_diags, rule checkCase_scan)

lemma nestedDiags_BlockStmt: "nestedDiags (BlockStmt l) = scanDiags l"
  unfolding nestedDiags_def[of "BlockStmt l"] checkNestedWriteHeader.simps
  by (rule emit_diags, rule checkBlock_scan)

lemma nestedDiags_body:
  "nestedDiags (ForStmt init fcond post body) = blockDiags body"
  "nestedDiags (RangeStmt k v x body) = blockDiags body"
  "nestedDiags (SwitchStmt init tag body) = blockDiags body"
  "nestedDiags (TypeSwitchStmt init assign body) = blockDiags body"
  "nestedDiags (SelectStmt body) = blockDiags body"
  by (simp_all add: nestedDiags_def blockDiags_def)

lemma nestedDiags_other: "\<not> descended s \<Longrightarrow> nestedDiags s = []"
  by (cases s) (simp_all add: nestedDiags_def)

lemmas nestedDiags_simps =
  nestedDiags_If nestedDiags_CaseClause nestedDiags_BlockStmt nestedDiags_body

subsection \<open>The adjacency rule\<close>

lemma IsFollowedByReturn_iff:
  "IsFollowedByReturn l i = (i + 1 < length l \<and> isReturnStmt (l ! (i + 1)))"
  by (auto simp: IsFollowedByReturn_def isReturnStmt_def split: stmt.splits)

lemma set_scanDiags:
  "set (scanDiags l) = set (violations l) \<union> (\<Union>s\<in>set l. set (nestedDiags s))"
proof -
  have "(\<Union>s\<in>set l. set (nestedDiags s))
        = (\<Union>s\<in>set (map snd (enumerate 0 l)). set (nestedDiags s))"
    by simp
  also have "\<dots> = (\<Union>x\<in>set (enumerate 0 l). set (nestedDiags (snd x)))"
    unfolding set_map by blast
  finally show ?thesis
    unfolding scanDiags_def violations_def by auto
qed

lemma scanned_diags:
  shows "set (nestedDiags s) = (\<Union>L\<in>set (scannedIn s). set (violations L))"
  and "set (blockDiags b) = (\<Union>L\<in>set (scannedBlock b). set (violations L))"
proof (induction s and b rule: scannedIn_scannedBlock.induct)
  case (1 init cond body els)
  then show ?case
    by (cases els) (simp_all add: nestedDiags_If del: scannedBlock.simps(2))
next
  case (8 es body)
  then show ?case
    by (simp add: nestedDiags_CaseClause set_scanDiags)
next
  case (11 l)
  then show ?case
    by (simp add: blockDiags_simps set_scanDiags)
qed (simp_all add: nestedDiags_simps nestedDiags_other blockDiags_simps
       del: scannedBlock.simps(2))

lemma own_mem:
  "(d \<in> set (own L i s)) =
     (\<exists>pos x. s = ExprStmt pos x \<and> IsWriteHeaderCall x \<and> \<not> IsFollowedByReturn L i
              \<and> d = \<lparr>Pos = pos, Message = message\<rparr>)"
  by (cases s) (auto simp: own_def)

lemma violations_mem:
  "(d \<in> set (violations L)) =
     (\<exists>i pos x. i < length L \<and> L ! i = ExprStmt pos x \<and> IsWriteHeaderCall x
                \<and> \<not> IsFollowedByReturn L i \<and> d = \<lparr>Pos = pos, Message = message\<rparr>)"
proof -
  have "(d \<in> set (violations L)) = (\<exists>p\<in>set (enumerate 0 L). d \<in> set (own L (fst p) (snd p)))"
    unfolding violations_def by (auto simp: case_prod_beta)
  also have "\<dots> = (\<exists>i<length L. d \<in> set (own L i (L ! i)))"
  proof
    assume "\<exists>p\<in>set (enumerate 0 L). d \<in> set (own L (fst p) (snd p))"
    then obtain p where "p \<in> set (enumerate 0 L)" "d \<in> set (own L (fst p) (snd p))" by blast
    then have "fst p < length L" "d \<in> set (own L (fst p) (L ! fst p))"
      by (auto simp: in_set_enumerate_eq)
    then show "\<exists>i<length L. d \<in> set (own L i (L ! i))" by blast
  next
    assume "\<exists>i<length L. d \<in> set (own L i (L ! i))"
    then obtain i where "i < length L" "d \<in> set (own L i (L ! i))" by blast
    then have "(i, L ! i) \<in> set (enumerate 0 L)" "d \<in> set (own L (fst (i, L ! i)) (snd (i, L ! i)))"
      by (auto simp: in_set_enumerate_eq)
    then show "\<exists>p\<in>set (enumerate 0 L). d \<in> set (own L (fst p) (snd p))" by blast
  qed
  finally show ?thesis by (auto simp: own_mem)
qed

lemma distinct_concat_index:
  "distinct (concat (map f xs)) \<Longrightarrow> i < length xs \<Longrightarrow> j < length xs
   \<Longrightarrow> a \<in> set (f (xs ! i)) \<Longrightarrow> a \<in> set (f (xs ! j)) \<Longrightarrow> i = j"
proof (induction xs arbitrary: i j)
  case Nil
  then show ?case by simp
next
  case (Cons x xs)
  show ?case
  proof (cases i)
    case 0
    show ?thesis
    proof (cases j)
      case 0
      with \<open>i = 0\<close> show ?thesis by simp
    next
      case (Suc j')
      with Cons.prems \<open>i = 0\<close> have "a \<in> set (f x)" "a \<in> set (concat (map f xs))"
        by auto
      with Cons.prems(1) show ?thesis by auto
    qed
  next
    case (Suc i')
    show ?thesis
    proof (cases j)
      case 0
      with Cons.prems \<open>i = Suc i'\<close> have "a \<in> set (f x)" "a \<in> set (concat (map f xs))"
        by auto
      with Cons.prems(1) show ?thesis by auto
    next
      case (Suc j')
      with Cons.prems \<open>i = Suc i'\<close> have "i' = j'"
        by (intro Cons.IH) auto
      with Suc \<open>i = Suc i'\<close> show ?thesis by simp
    qed
  qed
qed

lemma candidatePos_mem:
  "(pos \<in> set (candidatePos s)) = (\<exists>x. s = ExprStmt pos x \<and> IsWriteHeaderCall x)"
  by (auto simp: candidatePos_def split: stmt.splits if_splits)

text \<open>
  C1: the adjacency rule. Take a closure body in which no two candidates of the
  scanned lists share a position, a list \<open>L\<close> scanned for it (the body itself or a
  list nested in the branches of an if, the arms of a switch or type switch, a
  loop body or a plain block) and a candidate at index \<open>i\<close> of \<open>L\<close>. The check of
  the body reports a diagnostic at the position of that candidate if and only if
  it is not the case that \<open>L\<close> has a statement at index \<open>i + 1\<close> that is a return.
\<close>

theorem adjacency_rule:
  assumes dist: "distinct (concat (map candidatePositions (scannedBlock (Some body))))"
    and L: "L \<in> set (scannedBlock (Some body))"
    and i: "i < length L" "L ! i = ExprStmt pos x" "IsWriteHeaderCall x"
  shows "\<exists>r. checkHandlerBody (Some body) pass0 = Inr r
           \<and> ((\<lparr>Pos = pos, Message = message\<rparr> \<in> set (diagnostics r))
                = (\<not> (i + 1 < length L \<and> isReturnStmt (L ! (i + 1)))))"
proof -
  let ?d = "\<lparr>Pos = pos, Message = message\<rparr>"
  let ?Ls = "scannedBlock (Some body)"
  have run: "checkHandlerBody (Some body) pass0 = Inr (emit (scanDiags body) pass0)"
    by (rule checkHandlerBody_scan)
  have diags: "set (diagnostics (emit (scanDiags body) pass0))
               = (\<Union>L\<in>set ?Ls. set (violations L))"
    using scanned_diags(2)[of "Some body"] by (simp add: pass0_def blockDiags_simps)
  have "(?d \<in> (\<Union>L\<in>set ?Ls. set (violations L))) = (\<not> IsFollowedByReturn L i)"
  proof
    assume "?d \<in> (\<Union>L\<in>set ?Ls. set (violations L))"
    then obtain L' where L': "L' \<in> set ?Ls" and "?d \<in> set (violations L')" by blast
    then obtain j x' where j: "j < length L'" "L' ! j = ExprStmt pos x'" "IsWriteHeaderCall x'"
      and nf: "\<not> IsFollowedByReturn L' j"
      unfolding violations_mem by auto
    from L obtain m where m: "m < length ?Ls" "?Ls ! m = L"
      unfolding in_set_conv_nth by blast
    from L' obtain n where n: "n < length ?Ls" "?Ls ! n = L'"
      unfolding in_set_conv_nth by blast
    have pL: "pos \<in> set (candidatePositions L)"
      using i nth_mem[OF i(1)] unfolding candidatePositions_def
      by (auto simp: candidatePos_mem intro!: bexI[of _ "L ! i"])
    have pL': "pos \<in> set (candidatePositions L')"
      using j nth_mem[OF j(1)] unfolding candidatePositions_def
      by (auto simp: candidatePos_mem intro!: bexI[of _ "L' ! j"])
    have "m = n"
      using distinct_concat_index[OF dist m(1) n(1), of pos] pL pL' m(2) n(2) by simp
    with m n have LL: "L' = L" by simp
    have dL: "distinct (concat (map candidatePos L))"
      using dist L unfolding candidatePositions_def[symmetric]
      by (auto simp: distinct_concat_iff)
    have "i = j"
      using distinct_concat_index[OF dL i(1), of j pos] i j LL
      by (simp add: candidatePos_mem)
    with nf LL show "\<not> IsFollowedByReturn L i" by simp
  next
    assume "\<not> IsFollowedByReturn L i"
    with i have "?d \<in> set (violations L)" unfolding violations_mem by blast
    with L show "?d \<in> (\<Union>L\<in>set ?Ls. set (violations L))" by blast
  qed
  with run diags show ?thesis
    by (simp add: IsFollowedByReturn_iff)
qed


theorem adjacency_rule_witness:
  "distinct (concat (map candidatePositions (scannedBlock (Some nestedBody))))
   \<and> [writeHeader 3, ReturnStmt []] \<in> set (scannedBlock (Some nestedBody))
   \<and> [writeHeader 4] \<in> set (scannedBlock (Some nestedBody))
   \<and> (\<exists>r. checkHandlerBody (Some nestedBody) pass0 = Inr r
          \<and> \<lparr>Pos = 3, Message = message\<rparr> \<notin> set (diagnostics r)
          \<and> \<lparr>Pos = 4, Message = message\<rparr> \<in> set (diagnostics r))"
proof -
  have h1: "distinct (concat (map candidatePositions (scannedBlock (Some nestedBody))))"
    by code_simp
  have h2: "[writeHeader 3, ReturnStmt []] \<in> set (scannedBlock (Some nestedBody))"
    by code_simp
  have h3: "[writeHeader 4] \<in> set (scannedBlock (Some nestedBody))"
    by code_simp
  show ?thesis
    using h1 h2 h3
      adjacency_rule [OF h1 h2, of 0 3 "CallExpr (SelectorExpr (Ident ''w'') ''WriteHeader'') [BasicLit ''200'']"]
      adjacency_rule [OF h1 h3, of 0 4 "CallExpr (SelectorExpr (Ident ''w'') ''WriteHeader'') [BasicLit ''200'']"]
    by (auto simp: writeHeader_def isReturnStmt_def)
qed

subsection \<open>The two scanning routines\<close>

text \<open>
  C9: for every non-nil block, \<^verbatim>\<open>checkHandlerBody\<close> and
  \<^verbatim>\<open>checkBlockForWriteHeader\<close> report exactly the same diagnostics, at the same
  positions and in the same order: from any pass they reach the same pass.
\<close>

theorem checkHandlerBody_same_as_checkBlock:
  "checkHandlerBody (Some l) p = Inr (checkBlockForWriteHeader (Some l) p)"
  by (simp add: checkHandlerBody_def)

subsection \<open>Statements that are not descended into\<close>

text \<open>
  C10: a statement that is not an if, a plain block, a for, a range, a switch, a
  type switch, a select or a case clause is not descended into: whatever it
  contains (a deferred or spawned function literal, a declaration, an
  assignment of a function literal), \<^verbatim>\<open>checkNestedWriteHeader\<close> reports nothing
  for it.
\<close>

theorem other_statements_not_descended:
  "\<not> descended s \<Longrightarrow> checkNestedWriteHeader s p = p"
  by (cases s) simp_all

theorem other_statements_not_descended_witness:
  "\<not> descended (DeferStmt (CallExpr (FuncLit (Some [writeHeader 7, writeBody 8])) []))
   \<and> checkNestedWriteHeader
        (DeferStmt (CallExpr (FuncLit (Some [writeHeader 7, writeBody 8])) [])) pass0 = pass0
   \<and> \<not> descended (AssignStmt [Ident ''f''] [FuncLit (Some [writeHeader 7])])
   \<and> checkNestedWriteHeader (AssignStmt [Ident ''f''] [FuncLit (Some [writeHeader 7])]) pass0
       = pass0"
  using other_statements_not_descended
          [of "DeferStmt (CallExpr (FuncLit (Some [writeHeader 7, writeBody 8])) [])" pass0]
        other_statements_not_descended
          [of "AssignStmt [Ident ''f''] [FuncLit (Some [writeHeader 7])]" pass0]
  by simp

subsection \<open>The arms of a switch\<close>

text \<open>
  C5: the arms of a switch are checked independently. For a closure body that is
  a switch whose first arm holds a call of \<^verbatim>\<open>WriteHeader\<close> followed by another
  call and whose second arm holds a call of \<^verbatim>\<open>WriteHeader\<close> followed by a
  return, exactly one diagnostic is reported, at the position of the first arm's
  call.
\<close>

theorem switch_arms_independent:
  assumes "IsWriteHeaderCall e1" and "IsWriteHeaderCall e2" and "\<not> IsWriteHeaderCall e3"
  shows "checkHandlerBody
           (Some [SwitchStmt init tag (Some
                    [CaseClause l1 [ExprStmt p1 e1, ExprStmt p3 e3],
                     CaseClause l2 [ExprStmt p2 e2, ReturnStmt rs]])]) p
         = Inr (emit [\<lparr>Pos = p1, Message = message\<rparr>] p)"
  using assms
  by (simp add: checkHandlerBody_scan scanDiags_def own_def nestedDiags_simps blockDiags_simps
      nestedDiags_other IsFollowedByReturn_def)


theorem switch_arms_independent_witness:
  "checkHandlerBody
     (Some [SwitchStmt None (Some (Ident ''m'')) (Some
              [CaseClause [BasicLit ''GET''] [writeHeader 1, writeBody 2],
               CaseClause [BasicLit ''POST''] [writeHeader 3, ReturnStmt []]])]) pass0
   = Inr \<lparr>diagnostics = [\<lparr>Pos = 1, Message = message\<rparr>]\<rparr>"
  using switch_arms_independent
          [of "CallExpr (SelectorExpr (Ident ''w'') ''WriteHeader'') [BasicLit ''200'']"
              "CallExpr (SelectorExpr (Ident ''w'') ''WriteHeader'') [BasicLit ''200'']"
              "CallExpr (SelectorExpr (Ident ''w'') ''Write'') [Ident ''body'']"
              None "Some (Ident ''m'')" "[BasicLit ''GET'']" 1 2 "[BasicLit ''POST'']" 3 "[]"
              pass0]
  by (simp add: writeHeader_def writeBody_def emit_def pass0_def)

subsection \<open>The walk as a sequence of nodes\<close>

lemma walkList_Nil_fun: "walkList f [] = Inr"
  by (rule ext) simp

lemma walkList_Cons_fun: "walkList f (x # xs) = andThen (f x) (walkList f xs)"
  by (rule ext) (simp add: andThen_def)

lemma andThen_Inr [simp]: "andThen Inr g = g" "andThen f Inr = f"
  by (rule ext, simp add: andThen_def split: sum.splits)+

lemma andThen_Inl [simp]: "andThen (\<lambda>p. Inl e) g = (\<lambda>p. Inl e)"
  by (rule ext) (simp add: andThen_def)

lemma andThen_assoc: "andThen (andThen f g) h = andThen f (andThen g h)"
  by (rule ext) (simp add: andThen_def split: sum.splits)

lemma walkList_append_fun: "walkList f (xs @ ys) = andThen (walkList f xs) (walkList f ys)"
  by (induction xs) (simp_all add: walkList_Nil_fun walkList_Cons_fun andThen_assoc)

lemma walkList_concat_fun:
  "walkList (\<lambda>x. walkList g (h x)) xs = walkList g (concat (map h xs))"
  by (induction xs) (simp_all add: walkList_Nil_fun walkList_Cons_fun walkList_append_fun)

lemma walkOpt_optList: "walkOpt f x = walkList f (optList x)"
  by (rule ext) (auto simp: walkOpt_def optList_def split: option.splits sum.splits)

lemma in_set_optList: "(x \<in> set (optList y)) = (y = Some x)"
  by (auto simp: optList_def split: option.splits)

lemma visitNode_fun:
  "visitNode (CallNode c) = visit c"
  "visitNode (BlockNode None) = (\<lambda>p. Inl NilPointerDereference)"
  "visitNode (BlockNode (Some l)) = Inr"
  by (rule ext, simp)+

lemma inspect_nodes:
  shows "inspectExpr e = walkList visitNode (nodesExpr e)"
  and "inspectStmt s = walkList visitNode (nodesStmt s)"
  and "inspectBlock b = walkList visitNode (nodesBlock b)"
proof (induction e and s and b rule: inspectExpr_inspectStmt_inspectBlock.induct)
qed (simp_all add: walkOpt_optList walkList_append_fun walkList_concat_fun
       in_set_optList[symmetric] walkList_Nil_fun walkList_Cons_fun visitNode_fun
       del: walkList.simps visitNode.simps cong: walkList_cong)

subsection \<open>The run over the declarations\<close>

lemma run_Nil: "run [] p = Inr p"
  by (simp add: run_def)

lemma run_Cons:
  "run (d # ds) p =
     (case (if \<not> isMiddlewarePattern d then Inr p else inspectBlock (Body d) p) of
        Inl e \<Rightarrow> Inl e
      | Inr r \<Rightarrow> run ds r)"
  unfolding run_def by simp

lemma run_unmatched: "\<not> isMiddlewarePattern d \<Longrightarrow> run [d] p = Inr p"
  by (simp add: run_Cons run_Nil)

subsection \<open>Every adapter call is checked\<close>

lemma visitNode_adapter:
  "n \<noteq> BlockNode None \<Longrightarrow> visitNode n = walkList checkHandlerBody (adapterBody n)"
proof (rule ext)
  fix p assume "n \<noteq> BlockNode None"
  then show "visitNode n p = walkList checkHandlerBody (adapterBody n) p"
  by (cases n rule: adapterBody.cases) (auto simp: visit_def split: sum.splits expr.splits)
qed

lemma walk_nodes_adapter:
  "BlockNode None \<notin> set ns \<Longrightarrow>
   walkList visitNode ns = walkList checkHandlerBody (concat (map adapterBody ns))"
proof -
  assume a: "BlockNode None \<notin> set ns"
  have "walkList visitNode ns = walkList (\<lambda>n. walkList checkHandlerBody (adapterBody n)) ns"
    by (rule walkList_cong) (use a in \<open>auto intro: visitNode_adapter\<close>)
  then show ?thesis by (simp add: walkList_concat_fun)
qed

lemma walk_bodies:
  "None \<notin> set bs \<Longrightarrow> walkList checkHandlerBody bs p = Inr (emit (concat (map blockDiags bs)) p)"
proof (induction bs arbitrary: p)
  case Nil
  then show ?case by simp
next
  case (Cons a bs)
  then obtain l where "a = Some l" by (cases a) auto
  with Cons show ?case
    by (simp add: checkHandlerBody_scan blockDiags_simps)
qed

lemma closedNodes_Nil: "closedNodes []"
  by (simp add: closedNodes_def)

lemma closedNodes_append: "closedNodes xs \<Longrightarrow> closedNodes ys \<Longrightarrow> closedNodes (xs @ ys)"
  by (auto simp: closedNodes_def)

lemma closedNodes_concat: "(\<And>x. x \<in> set xs \<Longrightarrow> closedNodes (f x)) \<Longrightarrow> closedNodes (concat (map f xs))"
  by (induction xs) (simp_all add: closedNodes_Nil closedNodes_append)

lemma closedNodes_Block: "closedNodes ns \<Longrightarrow> closedNodes (BlockNode b # ns)"
  by (auto simp: closedNodes_def)

lemma adapter_arg:
  "b \<in> set (adapterBody (CallNode (CallExpr fn args)))
   \<Longrightarrow> BlockNode b \<in> set (concat (map nodesExpr args))"
proof -
  assume a: "b \<in> set (adapterBody (CallNode (CallExpr fn args)))"
  then obtain rest where "args = FuncLit b # rest"
    by (cases "CallNode (CallExpr fn args)" rule: adapterBody.cases) (auto split: if_splits)
  then show ?thesis by (cases b) auto
qed

lemma closedNodes_Call:
  "closedNodes (nodesExpr fn @ concat (map nodesExpr args))
   \<Longrightarrow> closedNodes (CallNode (CallExpr fn args) # nodesExpr fn @ concat (map nodesExpr args))"
  unfolding closedNodes_def using adapter_arg[of _ fn args] by auto

lemmas closedNodes_intros =
  closedNodes_Nil closedNodes_append closedNodes_concat closedNodes_Block closedNodes_Call

lemma closedNodes_nodes:
  shows "closedNodes (nodesExpr e)"
  and "closedNodes (nodesStmt s)"
  and "closedNodes (nodesBlock b)"
proof (induction e and s and b rule: nodesExpr_nodesStmt_nodesBlock.induct)
qed (simp_all add: in_set_optList[symmetric] closedNodes_intros)

lemma nilFree_adapterBodies: "nilFree b \<Longrightarrow> None \<notin> set (adapterBodies b)"
  using closedNodes_nodes(3)[of b]
  unfolding nilFree_def adapterBodies_def closedNodes_def by auto

lemma inspectBlock_adapterBodies:
  "nilFree b \<Longrightarrow> inspectBlock b = walkList checkHandlerBody (adapterBodies b)"
  by (simp add: inspect_nodes walk_nodes_adapter nilFree_def adapterBodies_def)

lemma inspectBlock_nilFree:
  "nilFree b \<Longrightarrow> inspectBlock b p = Inr (emit (concat (map blockDiags (adapterBodies b))) p)"
  by (simp add: inspectBlock_adapterBodies walk_bodies nilFree_adapterBodies)

lemma run_no_panic:
  "(\<And>d. d \<in> set decls \<Longrightarrow> isMiddlewarePattern d \<Longrightarrow> nilFree (Body d))
   \<Longrightarrow> \<exists>r. run decls p = Inr r"
  by (induction decls arbitrary: p) (auto simp: run_Nil run_Cons inspectBlock_nilFree)

text \<open>
  C6: in a matched function whose tree has no nil block, the checker is invoked
  once for the literal body of each adapter call, in the order of the walk and
  without stopping at the first, and the run reports the diagnostics of all of
  these bodies.
\<close>

theorem every_adapter_call_checked:
  assumes "isMiddlewarePattern d" and "nilFree (Body d)"
  shows "run [d] p = walkList checkHandlerBody (adapterBodies (Body d)) p
       \<and> run [d] p = Inr (emit (concat (map blockDiags (adapterBodies (Body d)))) p)"
proof -
  have "run [d] p = inspectBlock (Body d) p"
    using assms(1) by (simp add: run_Cons run_Nil split: sum.splits)
  with assms(2) show ?thesis
    by (simp add: inspectBlock_nilFree inspectBlock_adapterBodies[symmetric])
qed

theorem every_adapter_call_checked_witness:
  "isMiddlewarePattern twoAdapters \<and> nilFree (Body twoAdapters)
   \<and> adapterBodies (Body twoAdapters)
       = [Some [writeHeader 10, writeBody 11], Some [writeHeader 20]]
   \<and> run [twoAdapters] pass0
       = Inr \<lparr>diagnostics = [\<lparr>Pos = 10, Message = message\<rparr>, \<lparr>Pos = 20, Message = message\<rparr>]\<rparr>"
proof -
  have h1: "isMiddlewarePattern twoAdapters" by code_simp
  have h2: "nilFree (Body twoAdapters)" by code_simp
  have h3: "adapterBodies (Body twoAdapters)
              = [Some [writeHeader 10, writeBody 11], Some [writeHeader 20]]"
    by code_simp
  have h4: "blockDiags (Some [writeHeader 10, writeBody 11]) = [\<lparr>Pos = 10, Message = message\<rparr>]"
    by code_simp
  have h5: "blockDiags (Some [writeHeader 20]) = [\<lparr>Pos = 20, Message = message\<rparr>]"
    by code_simp
  show ?thesis
    using every_adapter_call_checked [OF h1 h2, of pass0, THEN conjunct2] h1 h2 h3 h4 h5
    by (simp add: emit_def pass0_def)
qed

subsection \<open>Determinism\<close>

lemma writer_Inr: "writer Inr"
proof -
  have "Inr = (\<lambda>p. Inr (emit [] p))" by (rule ext) simp
  then show ?thesis unfolding writer_def by blast
qed

lemma writer_Inl: "writer (\<lambda>p. Inl e)"
  unfolding writer_def by blast

lemma andThen_emit:
  "andThen (\<lambda>p. Inr (emit ds p)) (\<lambda>p. Inr (emit es p)) = (\<lambda>p. Inr (emit (ds @ es) p))"
  "andThen (\<lambda>p. Inr (emit ds p)) (\<lambda>p. Inl e) = (\<lambda>p. Inl e)"
  by (rule ext, simp add: andThen_def)+

lemma writer_andThen: "writer f \<Longrightarrow> writer g \<Longrightarrow> writer (andThen f g)"
  unfolding writer_def
  by (elim disjE exE) (simp_all add: andThen_emit, blast+)

lemma writer_walkList: "(\<And>x. x \<in> set xs \<Longrightarrow> writer (f x)) \<Longrightarrow> writer (walkList f xs)"
  by (induction xs) (simp_all add: walkList_Nil_fun walkList_Cons_fun writer_Inr writer_andThen)

lemma writer_checkHandlerBody: "writer (checkHandlerBody b)"
proof (cases b)
  case None
  then have "checkHandlerBody b = (\<lambda>p. Inl NilPointerDereference)"
    by (auto simp: checkHandlerBody_def)
  then show ?thesis by (simp add: writer_Inl)
next
  case (Some l)
  then have "checkHandlerBody b = (\<lambda>p. Inr (emit (scanDiags l) p))"
    by (auto simp: checkHandlerBody_scan)
  then show ?thesis unfolding writer_def by blast
qed

lemma writer_visitNode: "writer (visitNode n)"
proof (cases "n = BlockNode None")
  case True
  then show ?thesis by (simp add: visitNode_fun writer_Inl)
next
  case False
  then show ?thesis
    by (simp add: visitNode_adapter writer_walkList writer_checkHandlerBody)
qed

lemma writer_run: "writer (run decls)"
proof -
  have "run decls = walkList (\<lambda>d. if \<not> isMiddlewarePattern d then Inr
                                   else walkList visitNode (nodesBlock (Body d))) decls"
    by (rule ext) (auto simp: run_def inspect_nodes intro!: walkList_cong[THEN fun_cong])
  then show ?thesis
    by (simp add: writer_walkList writer_visitNode writer_Inr)
qed

text \<open>
  C8: the analysis is deterministic. Two runs on the same declarations, from
  whatever passes they start, end the same way: both panic with the same error,
  or both report the same diagnostics (positions, messages, number and order).
\<close>

theorem run_deterministic:
  "(\<exists>e. run decls p = Inl e \<and> run decls q = Inl e)
   \<or> (\<exists>ds. run decls p = Inr (emit ds p) \<and> run decls q = Inr (emit ds q))"
  using writer_run[of decls] unfolding writer_def by metis

section \<open>The signature matcher\<close>

lemma isMiddlewarePattern_iff:
  "isMiddlewarePattern d =
     (\<exists>f. Results (Type d) = Some [f] \<and> isHTTPHandler (FieldType f))"
  by (cases "Results (Type d)")
     (auto simp: isMiddlewarePattern_def length_Suc_conv)

text \<open>
  C3 (the code differs): the matcher never reads \<^verbatim>\<open>Params\<close>. It accepts
  \<^verbatim>\<open>func NoParam() http.Handler\<close>, which declares no parameter, and the
  analysis reports the call in its closure.
\<close>

theorem matcher_accepts_no_parameter:
  "Params (Type noParam) = [] \<and> isMiddlewarePattern noParam
   \<and> run [noParam] pass0 = Inr \<lparr>diagnostics = [\<lparr>Pos = 10, Message = message\<rparr>]\<rparr>"
  by code_simp

text \<open>
  C4 (the code differs): the matcher counts the fields of the result list, not
  the results. \<^verbatim>\<open>func Pair(handler http.Handler) (a, b http.Handler)\<close> declares
  two results in one field; the matcher accepts it and the analysis reports the
  call in its closure.
\<close>

theorem matcher_accepts_two_results:
  "NumFields (Results (Type pair)) = 2 \<and> isMiddlewarePattern pair
   \<and> run [pair] pass0 = Inr \<lparr>diagnostics = [\<lparr>Pos = 10, Message = message\<rparr>]\<rparr>"
  by code_simp

section \<open>The analysis on degenerate trees\<close>

text \<open>The arm of a switch is scanned: the call at position 40 is reported.\<close>

lemma switch_clause_scanned:
  "run [switchMiddleware] pass0 = Inr \<lparr>diagnostics = [\<lparr>Pos = 40, Message = message\<rparr>]\<rparr>"
  by code_simp

text \<open>
  C2 (the code differs): the clauses of a select are \<^verbatim>\<open>*ast.CommClause\<close> nodes,
  for which the type switch of \<^verbatim>\<open>checkNestedWriteHeader\<close> has no case. The call
  of \<^verbatim>\<open>WriteHeader\<close> at position 40 is followed by a call of \<^verbatim>\<open>Write\<close> in its
  communication clause, and nothing is reported.
\<close>

theorem select_clause_not_scanned:
  "run [selectMiddleware] pass0 = Inr pass0"
  by code_simp

text \<open>
  C7 (the code differs): a declaration of the middleware signature without body
  makes \<^verbatim>\<open>run\<close> panic, since \<^verbatim>\<open>ast.Inspect\<close> is given the nil body. On
  trees without nil block the run never panics (\<open>run_no_panic\<close>).
\<close>

theorem run_panics_without_body:
  "isMiddlewarePattern (middleware None) \<and> run [middleware None] pass0 = Inl NilPointerDereference"
  by code_simp

end
